theory Spec2Isabelle
  imports Main "HOL-Library.Sublist"
begin

section \<open>Strings of the driver's statement parser\<close>

text \<open>
  The parser of the Cloud Spanner driver (class \<open>SpannerQueryParser\<close>) works on
  JavaScript strings. A script is modelled as a \<open>string\<close>, one \<open>char\<close> for each
  UTF-16 code unit; the model therefore covers the scripts whose characters lie in
  U+0000..U+00FF. On these \<open>Array.from\<close> yields one array element for each code unit, so
  the array index of the scanning loops and the index handed to \<open>substring\<close> agree.
  Outside this range they do not: \<open>Array.from\<close> yields one element for a character above
  U+FFFF, \<open>substring\<close> counts its two code units, and \<open>getStatements\<close> hands the one
  index to the other, so that the code cuts such a script before the delimiter it has
  found. No theorem below speaks about such scripts.

  \<open>String.prototype.trim\<close> removes white space and line terminators at both ends; in the
  modelled range these are TAB, LF, VT, FF, CR, SPACE and NBSP.
\<close>

definition isWhiteSpace :: "char \<Rightarrow> bool" where
  "isWhiteSpace c =
     (c = CHR 0x09 \<or> c = CHR 0x0A \<or> c = CHR 0x0B \<or> c = CHR 0x0C \<or> c = CHR 0x0D \<or>
      c = CHR 0x20 \<or> c = CHR 0xA0)"

definition trim :: "string \<Rightarrow> string" where
  "trim s = rev (dropWhile isWhiteSpace (rev (dropWhile isWhiteSpace s)))"

text \<open>\<open>s.substring(a, b)\<close> for \<open>0 \<le> a\<close>: both arguments are clamped to the length and
  swapped when \<open>a > b\<close>; \<open>s.substring(a)\<close> runs to the end of the string.\<close>

definition substring :: "string \<Rightarrow> nat \<Rightarrow> nat \<Rightarrow> string" where
  "substring s a b = take (max a b - min a b) (drop (min a b) s)"

definition substringFrom :: "string \<Rightarrow> nat \<Rightarrow> string" where
  "substringFrom s a = drop a s"

section \<open>The scanner of \<open>getStatements\<close>\<close>

text \<open>
  The mutable locals of the scanning loops. \<open>commentChar\<close> and \<open>stringChar\<close> are
  \<open>null\<close> (here \<open>None\<close>) or a one-character string. The statement splitter extends the
  comment flags, which it shares with the keyword scanner, by the string flags.
\<close>

record comment_flags =
  isInComment :: bool
  commentChar :: "char option"

record scanner = comment_flags +
  isInString :: bool
  stringChar :: "char option"
  isInTripleQuotes :: bool

definition scanner_init :: scanner where
  "scanner_init = \<lparr>isInComment = False, commentChar = None,
     isInString = False, stringChar = None, isInTripleQuotes = False\<rparr>"

text \<open>
  One pass through the body of the \<open>for\<close> loop of \<open>getStatements\<close>, at \<open>index\<close>. The body
  either reaches a \<open>continue\<close> or its end, with the locals and the index it has then (the
  loop header adds one), or it finds the delimiter and leaves the loop with
  \<open>splittingIndex = index + 1\<close>.

  \<open>previousChar\<close> is assigned \<open>charArray[index - 1]\<close> whenever \<open>index > 0\<close> and is \<open>null\<close>
  in the first round, so it is a function of the index; \<open>nextChar\<close> is assigned in every
  round. A comparison of \<open>null\<close> with a one-character string by \<open>==\<close> is false and by
  \<open>!=\<close> is true. The delimiter is the constant \<open>';'\<close> that \<open>parse\<close> passes, and
  \<open>char.toLowerCase() === delimiter.toLowerCase()\<close> holds exactly for \<open>char = ';'\<close>.
\<close>

datatype flow = Continue nat scanner | Break nat

definition getStatements_body :: "string \<Rightarrow> nat \<Rightarrow> scanner \<Rightarrow> flow" where
  "getStatements_body charArray index s =
    (let char = charArray ! index;
         previousChar = (if index > 0 then Some (charArray ! (index - 1)) else None);
         nextChar = (if index + 1 < length charArray then Some (charArray ! (index + 1)) else None)
     in
     if previousChar \<noteq> Some (CHR 0x5C) \<and> (char = CHR 0x27 \<or> char = CHR 0x22 \<or> char = CHR 0x60)
        \<and> isInString s = False \<and> isInComment s = False
     then
       (if index + 2 < length charArray \<and> charArray ! (index + 1) = char
           \<and> charArray ! (index + 2) = char
        then Continue (index + 2)
               (s\<lparr>isInString := True, stringChar := Some char, isInTripleQuotes := True\<rparr>)
        else Continue index (s\<lparr>isInString := True, stringChar := Some char\<rparr>))
     else if ((char = CHR ''#'' \<and> nextChar = Some (CHR '' '')) \<or>
              (char = CHR ''-'' \<and> nextChar = Some (CHR ''-'')) \<or>
              (char = CHR ''/'' \<and> nextChar = Some (CHR ''*'')))
             \<and> isInString s = False
     then Continue index (s\<lparr>isInComment := True, commentChar := Some char\<rparr>)
     else if isInComment s = True \<and>
             (((commentChar s = Some (CHR ''#'') \<or> commentChar s = Some (CHR ''-''))
                 \<and> char = CHR 0x0A) \<or>
              (commentChar s = Some (CHR ''/'') \<and> (char = CHR ''*'' \<and> nextChar = Some (CHR ''/''))))
     then Continue index (s\<lparr>isInComment := False, commentChar := None\<rparr>)
     else if previousChar \<noteq> Some (CHR 0x5C) \<and> Some char = stringChar s \<and> isInString s = True
     then
       (if isInTripleQuotes s
        then
          (if index + 2 < length charArray \<and> charArray ! (index + 1) = char
              \<and> charArray ! (index + 2) = char
           then Continue (index + 2)
                  (s\<lparr>isInTripleQuotes := False, isInString := False, stringChar := None\<rparr>)
           else Continue index s)
        else Continue index (s\<lparr>isInString := False, stringChar := None\<rparr>))
     else if char = CHR '';'' \<and> isInString s = False \<and> isInComment s = False
     then Break (index + 1)
     else Continue index s)"

text \<open>The \<open>for\<close> loop: the splitting index of the first delimiter found, or \<open>None\<close> when
  the loop runs to the end of the array and \<open>resultQueries\<close> stays empty.\<close>

function getStatements_loop :: "string \<Rightarrow> nat \<Rightarrow> scanner \<Rightarrow> nat option" where
  "getStatements_loop charArray index s =
     (if index < length charArray
      then (case getStatements_body charArray index s of
              Break splittingIndex \<Rightarrow> Some splittingIndex
            | Continue index' s' \<Rightarrow> getStatements_loop charArray (index' + 1) s')
      else None)"
  by pat_completeness auto
termination
  by (relation "measure (\<lambda>(charArray, index, s). length charArray - index)")
     (auto simp: getStatements_body_def Let_def split: if_splits)

text \<open>\<open>getQueryParts(query, splittingIndex, numChars)\<close> of the current revision of the
  parser: the statement is the text before the delimiter. Its result array of two
  entries is a pair; the second entry of the result of \<open>getStatements\<close> can be \<open>null\<close>.\<close>

definition getQueryParts :: "string \<Rightarrow> nat \<Rightarrow> nat \<Rightarrow> string \<times> string option" where
  "getQueryParts query splittingIndex numChars =
     (let statement = substring query 0 (splittingIndex - 1);
          restOfQuery = substringFrom query (splittingIndex + numChars)
      in (trim statement, Some restOfQuery))"

definition getStatements :: "string \<Rightarrow> string \<times> string option" where
  "getStatements query =
     (case getStatements_loop query 0 scanner_init of
        Some splittingIndex \<Rightarrow> getQueryParts query splittingIndex 0
      | None \<Rightarrow> (trim query, None))"

text \<open>
  The rounds of the \<open>for\<close> loop of \<open>getStatements\<close>: the loop header is reached with index
  0 and the initial locals, and after every round that ends without \<open>break\<close>, one past
  the index that round has left.
\<close>

inductive getStatements_reaches :: "string \<Rightarrow> nat \<Rightarrow> scanner \<Rightarrow> bool" for charArray where
  first_round: "getStatements_reaches charArray 0 scanner_init"
| next_round: "getStatements_reaches charArray index s \<Longrightarrow> index < length charArray \<Longrightarrow>
     getStatements_body charArray index s = Continue index' s' \<Longrightarrow>
     getStatements_reaches charArray (index' + 1) s'"

text \<open>
  The \<open>while (flag)\<close> loop of \<open>parse\<close>. \<open>restOfQuery\<close> is a hoisted \<open>var\<close>: it is
  \<open>undefined\<close> (here \<open>None\<close>) when the first round tests it against \<open>null\<close>, and a string
  in every later round. \<open>substring\<close> and \<open>trim\<close> never return \<open>null\<close>, so the test
  \<open>statement != null\<close> always succeeds. The loop is left by \<open>break\<close> only; that every
  round shortens the text to scan is what makes the recursion terminate.
\<close>

function parse_loop :: "string \<Rightarrow> string option \<Rightarrow> string list \<Rightarrow> string list" where
  "parse_loop query restOfQuery queries =
     (case getStatements (case restOfQuery of None \<Rightarrow> query | Some r \<Rightarrow> r) of
        (statement, restOfQuery') \<Rightarrow>
          (case restOfQuery' of
             None \<Rightarrow> (if trim statement \<noteq> [] then queries @ [statement] else queries)
           | Some r' \<Rightarrow>
               if trim r' = []
               then (if trim statement \<noteq> [] then queries @ [statement] else queries)
               else parse_loop query (Some r')
                      (if trim statement \<noteq> [] then queries @ [statement] else queries)))"
  by pat_completeness auto

definition parse :: "string \<Rightarrow> string list" where
  "parse query = parse_loop query None []"

text \<open>
  The same loop with no termination built in: not leaving the loop is the value \<open>None\<close>.
\<close>

partial_function (option) parse_while ::
  "string \<Rightarrow> string option \<Rightarrow> string list \<Rightarrow> string list option" where
  "parse_while query restOfQuery queries =
     (case getStatements (case restOfQuery of None \<Rightarrow> query | Some r \<Rightarrow> r) of
        (statement, restOfQuery') \<Rightarrow>
          (case restOfQuery' of
             None \<Rightarrow> Some (if trim statement \<noteq> [] then queries @ [statement] else queries)
           | Some r' \<Rightarrow>
               if trim r' = []
               then Some (if trim statement \<noteq> [] then queries @ [statement] else queries)
               else parse_while query (Some r')
                      (if trim statement \<noteq> [] then queries @ [statement] else queries)))"

section \<open>The earlier revision of the splitter\<close>

text \<open>
  The earlier revision of the parser has the same \<open>parse\<close> and \<open>getStatements\<close>, word for
  word; its \<open>getQueryParts\<close> cuts the statement at \<open>splittingIndex\<close>, not one short of it.
\<close>

definition getQueryParts_v1 :: "string \<Rightarrow> nat \<Rightarrow> nat \<Rightarrow> string \<times> string option" where
  "getQueryParts_v1 query splittingIndex numChars =
     (let statement = substring query 0 splittingIndex;
          restOfQuery = substringFrom query (splittingIndex + numChars)
      in (trim statement, Some restOfQuery))"

definition getStatements_v1 :: "string \<Rightarrow> string \<times> string option" where
  "getStatements_v1 query =
     (case getStatements_loop query 0 scanner_init of
        Some splittingIndex \<Rightarrow> getQueryParts_v1 query splittingIndex 0
      | None \<Rightarrow> (trim query, None))"

function parse_loop_v1 :: "string \<Rightarrow> string option \<Rightarrow> string list \<Rightarrow> string list" where
  "parse_loop_v1 query restOfQuery queries =
     (case getStatements_v1 (case restOfQuery of None \<Rightarrow> query | Some r \<Rightarrow> r) of
        (statement, restOfQuery') \<Rightarrow>
          (case restOfQuery' of
             None \<Rightarrow> (if trim statement \<noteq> [] then queries @ [statement] else queries)
           | Some r' \<Rightarrow>
               if trim r' = []
               then (if trim statement \<noteq> [] then queries @ [statement] else queries)
               else parse_loop_v1 query (Some r')
                      (if trim statement \<noteq> [] then queries @ [statement] else queries)))"
  by pat_completeness auto

definition parse_v1 :: "string \<Rightarrow> string list" where
  "parse_v1 query = parse_loop_v1 query None []"

section \<open>The statement classifier\<close>

text \<open>
  \<open>getFirstKeywordOutsideComments\<close>: the loop body either continues, with the index it
  has then, or returns the keyword from inside the loop. \<open>char.trim() == ''\<close> holds
  exactly for a white-space character.
\<close>

record keyword_scanner = comment_flags +
  keyword :: string

definition keyword_scanner_init :: keyword_scanner where
  "keyword_scanner_init = \<lparr>isInComment = False, commentChar = None, keyword = []\<rparr>"

datatype keyword_flow = Next nat keyword_scanner | Return string

definition getFirstKeywordOutsideComments_body ::
  "string \<Rightarrow> nat \<Rightarrow> keyword_scanner \<Rightarrow> keyword_flow" where
  "getFirstKeywordOutsideComments_body charArray index s =
    (let char = charArray ! index;
         nextChar = (if index + 1 < length charArray then Some (charArray ! (index + 1)) else None)
     in
     if (char = CHR ''#'' \<and> nextChar = Some (CHR '' '')) \<or>
        (char = CHR ''-'' \<and> nextChar = Some (CHR ''-'')) \<or>
        (char = CHR ''/'' \<and> nextChar = Some (CHR ''*''))
     then Next index (s\<lparr>isInComment := True, commentChar := Some char\<rparr>)
     else if isInComment s = True \<and>
             (((commentChar s = Some (CHR ''#'') \<or> commentChar s = Some (CHR ''-''))
                 \<and> char = CHR 0x0A) \<or>
              (commentChar s = Some (CHR ''/'') \<and> (char = CHR ''*'' \<and> nextChar = Some (CHR ''/''))))
     then Next (if commentChar s = Some (CHR ''/'') then index + 1 else index)
            (s\<lparr>isInComment := False, commentChar := None\<rparr>)
     else if isInComment s = False
     then
       (if isWhiteSpace char
        then (if keyword s = [] then Next index s else Return (keyword s))
        else Next index (s\<lparr>keyword := keyword s @ [char]\<rparr>))
     else Next index s)"

function getFirstKeywordOutsideComments_loop ::
  "string \<Rightarrow> nat \<Rightarrow> keyword_scanner \<Rightarrow> string" where
  "getFirstKeywordOutsideComments_loop charArray index s =
     (if index < length charArray
      then (case getFirstKeywordOutsideComments_body charArray index s of
              Return k \<Rightarrow> k
            | Next index' s' \<Rightarrow> getFirstKeywordOutsideComments_loop charArray (index' + 1) s')
      else keyword s)"
  by pat_completeness auto
termination
  by (relation "measure (\<lambda>(charArray, index, s). length charArray - index)")
     (auto simp: getFirstKeywordOutsideComments_body_def Let_def split: if_splits)

declare getFirstKeywordOutsideComments_loop.simps [simp del]

definition getFirstKeywordOutsideComments :: "string \<Rightarrow> string" where
  "getFirstKeywordOutsideComments sql =
     getFirstKeywordOutsideComments_loop sql 0 keyword_scanner_init"

text \<open>
  \<open>toUpperCase\<close> on the modelled range: the letters a..z and the Latin-1 letters
  U+00E0..U+00FE (but the division sign U+00F7) move down by 32, and U+00DF becomes
  \<open>SS\<close>. The upper-case forms of U+00B5 and U+00FF lie outside the range; they are no
  ASCII letters, so no test against the ASCII statement keywords can tell them from the
  characters themselves, which the model keeps.
\<close>

definition toUpperCase_char :: "char \<Rightarrow> string" where
  "toUpperCase_char c =
     (let n = (of_char c :: nat) in
      if 0x61 \<le> n \<and> n \<le> 0x7A then [char_of (n - 0x20)]
      else if n = 0xDF then ''SS''
      else if 0xE0 \<le> n \<and> n \<le> 0xFE \<and> n \<noteq> 0xF7 then [char_of (n - 0x20)]
      else [c])"

definition toUpperCase :: "string \<Rightarrow> string" where
  "toUpperCase s = concat (map toUpperCase_char s)"

definition startsWith :: "string \<Rightarrow> string \<Rightarrow> bool" where
  "startsWith s searchString = prefix searchString s"

datatype StatementType = UNSPECIFIED | QUERY | DML | DDL

definition getStatementType :: "string \<Rightarrow> StatementType" where
  "getStatementType sql =
     (if sql = [] then UNSPECIFIED
      else
        (let statement = toUpperCase (getFirstKeywordOutsideComments sql) in
         if startsWith statement ''SELECT'' \<or> startsWith statement ''WITH'' then QUERY
         else if startsWith statement ''INSERT'' \<or> startsWith statement ''UPDATE'' \<or>
                 startsWith statement ''DELETE'' then DML
         else if startsWith statement ''CREATE'' \<or> startsWith statement ''ALTER'' \<or>
                 startsWith statement ''DROP'' then DDL
         else UNSPECIFIED))"

section \<open>The leading keyword as the specification words it\<close>

text \<open>
  The specification's scanner over a statement, with the two modes the classifier needs:
  in \<open>Normal\<close> mode only, \<open>#\<close> followed by a space, \<open>--\<close> or \<open>/*\<close> starts a comment and
  the comment character is remembered; in a comment, a newline ends a \<open>#\<close> or \<open>-\<close>
  comment and \<open>*/\<close> ends a \<open>/\<close> comment, both characters being consumed. Every character
  of the text is \<open>Significant\<close> (read in \<open>Normal\<close> mode and no start of a comment) or
  \<open>Shielded\<close> (part of a comment, its markers included). Inside a comment the
  specification's scanner reads no comment start; the place where one with another
  comment character stands is tagged \<open>Foreign\<close>, and is shielded like its neighbours.

  The leading keyword is the first maximal run of non-white-space characters that lies
  entirely outside a comment. \<open>no_foreign_marker_before_keyword\<close> says that no
  \<open>Foreign\<close> place precedes this run (or stands anywhere, when there is no such run);
  \<open>keyword_ends_outside\<close> says that the run ends at the end of the text or at a
  significant character (then white space), not at a comment.
\<close>

datatype ScanMode = Normal | InComment char

datatype tag = Significant | Shielded | Foreign

definition starts_comment :: "char \<Rightarrow> string \<Rightarrow> bool" where
  "starts_comment c cs =
     (case cs of
        [] \<Rightarrow> False
      | n # _ \<Rightarrow> (c = CHR ''#'' \<and> n = CHR '' '') \<or> (c = CHR ''-'' \<and> n = CHR ''-'') \<or>
                 (c = CHR ''/'' \<and> n = CHR ''*''))"

fun comment_tags :: "ScanMode \<Rightarrow> string \<Rightarrow> tag list" where
  "comment_tags m [] = []"
| "comment_tags Normal (c # cs) =
     (if starts_comment c cs then Shielded # comment_tags (InComment c) cs
      else Significant # comment_tags Normal cs)"
| "comment_tags (InComment m) [c] = [Shielded]"
| "comment_tags (InComment m) (c # n # cs) =
     (if starts_comment c (n # cs) \<and> c \<noteq> m then Foreign # comment_tags (InComment m) (n # cs)
      else if (m = CHR ''#'' \<or> m = CHR ''-'') \<and> c = CHR 0x0A
      then Shielded # comment_tags Normal (n # cs)
      else if m = CHR ''/'' \<and> c = CHR ''*'' \<and> n = CHR ''/''
      then Shielded # Shielded # comment_tags Normal cs
      else Shielded # comment_tags (InComment m) (n # cs))"

definition in_keyword :: "char \<times> tag \<Rightarrow> bool" where
  "in_keyword x = (snd x = Significant \<and> \<not> isWhiteSpace (fst x))"

definition firstKeyword_spec :: "string \<Rightarrow> string" where
  "firstKeyword_spec sql =
     map fst (takeWhile in_keyword
       (dropWhile (\<lambda>x. \<not> in_keyword x) (zip sql (comment_tags Normal sql))))"

definition before_keyword :: "ScanMode \<Rightarrow> string \<Rightarrow> tag list" where
  "before_keyword m rest =
     map snd (takeWhile (\<lambda>x. \<not> in_keyword x) (zip rest (comment_tags m rest)))"

definition no_foreign_marker_before_keyword :: "string \<Rightarrow> bool" where
  "no_foreign_marker_before_keyword sql = (Foreign \<notin> set (before_keyword Normal sql))"

definition keyword_ends_outside :: "string \<Rightarrow> bool" where
  "keyword_ends_outside sql =
     (case dropWhile in_keyword
             (dropWhile (\<lambda>x. \<not> in_keyword x) (zip sql (comment_tags Normal sql))) of
        [] \<Rightarrow> True
      | x # _ \<Rightarrow> snd x = Significant)"

text \<open>
  For the comparison of the two scans: the locals of \<open>getFirstKeywordOutsideComments\<close>
  that go with a mode and a keyword read so far, and the tagged text that is still to
  be read for the keyword (up to its first character while the keyword is empty).
\<close>

definition keyword_scanner_of :: "ScanMode \<Rightarrow> string \<Rightarrow> keyword_scanner" where
  "keyword_scanner_of m k =
     (case m of
        Normal \<Rightarrow> \<lparr>isInComment = False, commentChar = None, keyword = k\<rparr>
      | InComment c \<Rightarrow> \<lparr>isInComment = True, commentChar = Some c, keyword = k\<rparr>)"

definition keyword_view :: "ScanMode \<Rightarrow> string \<Rightarrow> string \<Rightarrow> (char \<times> tag) list" where
  "keyword_view m k rest =
     (if k = [] then dropWhile (\<lambda>x. \<not> in_keyword x) (zip rest (comment_tags m rest))
      else zip rest (comment_tags m rest))"

definition ends_outside :: "(char \<times> tag) list \<Rightarrow> bool" where
  "ends_outside z = (case z of [] \<Rightarrow> True | x # _ \<Rightarrow> snd x = Significant)"

section \<open>The loop body as a function of what it reads\<close>

text \<open>
  The body of the loop of \<open>getStatements\<close> reads the array at four places only: the
  character at the index, the one before, the one after, and the two after it in the
  test for a triple quote. \<open>getStatements_step\<close> is the body with these four readings as
  arguments (\<open>getStatements_body_step\<close> below); \<open>flow_shift\<close> moves the outcome of a
  round one index to the right.
\<close>

definition getStatements_step ::
  "char option \<Rightarrow> char \<Rightarrow> char option \<Rightarrow> bool \<Rightarrow> nat \<Rightarrow> scanner \<Rightarrow> flow" where
  "getStatements_step previousChar char nextChar triple index s =
     (if previousChar \<noteq> Some (CHR 0x5C) \<and> (char = CHR 0x27 \<or> char = CHR 0x22 \<or> char = CHR 0x60)
        \<and> isInString s = False \<and> isInComment s = False
     then
       (if triple
        then Continue (index + 2)
               (s\<lparr>isInString := True, stringChar := Some char, isInTripleQuotes := True\<rparr>)
        else Continue index (s\<lparr>isInString := True, stringChar := Some char\<rparr>))
     else if ((char = CHR ''#'' \<and> nextChar = Some (CHR '' '')) \<or>
              (char = CHR ''-'' \<and> nextChar = Some (CHR ''-'')) \<or>
              (char = CHR ''/'' \<and> nextChar = Some (CHR ''*'')))
             \<and> isInString s = False
     then Continue index (s\<lparr>isInComment := True, commentChar := Some char\<rparr>)
     else if isInComment s = True \<and>
             (((commentChar s = Some (CHR ''#'') \<or> commentChar s = Some (CHR ''-''))
                 \<and> char = CHR 0x0A) \<or>
              (commentChar s = Some (CHR ''/'') \<and> (char = CHR ''*'' \<and> nextChar = Some (CHR ''/''))))
     then Continue index (s\<lparr>isInComment := False, commentChar := None\<rparr>)
     else if previousChar \<noteq> Some (CHR 0x5C) \<and> Some char = stringChar s \<and> isInString s = True
     then
       (if isInTripleQuotes s
        then
          (if triple
           then Continue (index + 2)
                  (s\<lparr>isInTripleQuotes := False, isInString := False, stringChar := None\<rparr>)
           else Continue index s)
        else Continue index (s\<lparr>isInString := False, stringChar := None\<rparr>))
     else if char = CHR '';'' \<and> isInString s = False \<and> isInComment s = False
     then Break (index + 1)
     else Continue index s)"

definition flow_shift :: "flow \<Rightarrow> flow" where
  "flow_shift f = (case f of Continue j t \<Rightarrow> Continue (Suc j) t | Break k \<Rightarrow> Break (Suc k))"

section \<open>Termination of the loops of \<open>parse\<close>\<close>

text \<open>The splitting index lies beyond the index at which the scan has started and within
  the text, so the remainder of a round is shorter than the text of the round.\<close>

declare getStatements_loop.simps [simp del]

lemma getStatements_body_index:
  "getStatements_body charArray index s = Continue index' s' \<Longrightarrow> index \<le> index'"
  "getStatements_body charArray index s = Break k \<Longrightarrow> k = index + 1"
  by (auto simp: getStatements_body_def Let_def split: if_splits)

lemma getStatements_loop_bounds:
  "getStatements_loop charArray index s = Some k \<Longrightarrow> index < k \<and> k \<le> length charArray"
proof (induction charArray index s rule: getStatements_loop.induct)
  case (1 charArray index s)
  from "1.prems" have less: "index < length charArray"
    by (simp add: getStatements_loop.simps [of charArray index s] split: if_splits)
  show ?case
  proof (cases "getStatements_body charArray index s")
    case (Continue index' s')
    with "1.prems" less have run: "getStatements_loop charArray (index' + 1) s' = Some k"
      by (simp add: getStatements_loop.simps [of charArray index s])
    from Continue have "index \<le> index'"
      by (rule getStatements_body_index)
    with "1.IH" [OF less Continue run] show ?thesis by simp
  next
    case (Break j)
    with "1.prems" less have "k = j"
      by (simp add: getStatements_loop.simps [of charArray index s])
    with Break less show ?thesis
      by (auto dest: getStatements_body_index(2))
  qed
qed

lemma getStatements_rest_shorter:
  "getStatements query = (statement, Some restOfQuery) \<Longrightarrow> length restOfQuery < length query"
  by (auto simp: getStatements_def getQueryParts_def substringFrom_def Let_def
      split: option.splits dest!: getStatements_loop_bounds)

lemma getStatements_v1_rest_shorter:
  "getStatements_v1 query = (statement, Some restOfQuery) \<Longrightarrow> length restOfQuery < length query"
  by (auto simp: getStatements_v1_def getQueryParts_v1_def substringFrom_def Let_def
      split: option.splits dest!: getStatements_loop_bounds)

termination parse_loop
  by (relation "measure (\<lambda>(query, restOfQuery, queries).
        (case restOfQuery of None \<Rightarrow> length query + 1 | Some r \<Rightarrow> length r))")
     (auto split: option.splits dest: getStatements_rest_shorter [OF sym])

termination parse_loop_v1
  by (relation "measure (\<lambda>(query, restOfQuery, queries).
        (case restOfQuery of None \<Rightarrow> length query + 1 | Some r \<Rightarrow> length r))")
     (auto split: option.splits dest: getStatements_v1_rest_shorter [OF sym])

declare parse_loop.simps [simp del]

declare parse_loop_v1.simps [simp del]

section \<open>The rounds of \<open>parse\<close>\<close>

text \<open>The accumulated statements and the text that is left determine the rest of the loop;
  a round of \<open>parse\<close> emits the statement of \<open>getStatements\<close> unless it is blank, and goes
  on with the remainder unless that is \<open>null\<close> or blank.\<close>

lemma parse_loop_None: "parse_loop query None queries = parse_loop query (Some query) queries"
  by (simp add: parse_loop.simps [of query None] parse_loop.simps [of query "Some query"])

lemma parse_loop_append:
  "parse_loop query (Some r) queries = queries @ parse_loop r (Some r) []"
proof (induction r arbitrary: query queries rule: length_induct)
  case (1 r)
  show ?case
  proof (cases "getStatements r")
    case (Pair statement rest)
    show ?thesis
    proof (cases rest)
      case None
      with Pair show ?thesis
        by (simp add: parse_loop.simps [of _ "Some r"])
    next
      case (Some r')
      with Pair have "length r' < length r"
        by (simp add: getStatements_rest_shorter)
      with 1 have IH: "\<And>q qs. parse_loop q (Some r') qs = qs @ parse_loop r' (Some r') []"
        by blast
      from Pair Some show ?thesis
        by (simp add: parse_loop.simps [of _ "Some r"] IH [of query] IH [of r])
    qed
  qed
qed

lemma parse_loop_parse: "parse_loop query (Some r) queries = queries @ parse r"
  unfolding parse_def parse_loop_None by (rule parse_loop_append)

lemma parse_unfold:
  "parse r =
     (case getStatements r of
        (statement, rest) \<Rightarrow>
          (if trim statement \<noteq> [] then [statement] else []) @
          (case rest of None \<Rightarrow> [] | Some r' \<Rightarrow> if trim r' = [] then [] else parse r'))"
proof -
  have "parse r = parse_loop r (Some r) []"
    by (simp add: parse_def parse_loop_None)
  also have "\<dots> =
     (case getStatements r of
        (statement, rest) \<Rightarrow>
          (if trim statement \<noteq> [] then [statement] else []) @
          (case rest of None \<Rightarrow> [] | Some r' \<Rightarrow> if trim r' = [] then [] else parse r'))"
    by (subst parse_loop.simps) (simp add: parse_loop_parse split: prod.splits option.splits)
  finally show ?thesis .
qed

lemma trim_Nil: "trim [] = []"
  by (simp add: trim_def)

lemma parse_nonblank: "\<forall>s\<in>set (parse query). trim s \<noteq> []"
proof (induction query rule: length_induct)
  case (1 r)
  show ?case
  proof (cases "getStatements r")
    case (Pair statement rest)
    show ?thesis
    proof (cases rest)
      case None
      with Pair show ?thesis
        by (simp add: parse_unfold [of r])
    next
      case (Some r')
      with Pair have "length r' < length r"
        by (simp add: getStatements_rest_shorter)
      with 1 have "\<forall>s\<in>set (parse r'). trim s \<noteq> []" by blast
      with Pair Some show ?thesis
        by (auto simp: parse_unfold [of r])
    qed
  qed
qed

lemma parse_while_parse_loop:
  "parse_while query restOfQuery queries = Some (parse_loop query restOfQuery queries)"
proof (induction query restOfQuery queries rule: parse_loop.induct)
  case (1 query restOfQuery queries)
  show ?case
  proof (cases "getStatements (case restOfQuery of None \<Rightarrow> query | Some r \<Rightarrow> r)")
    case (Pair statement rest)
    show ?thesis
    proof (cases rest)
      case None
      with Pair show ?thesis
        by (simp add: parse_while.simps [of query restOfQuery]
            parse_loop.simps [of query restOfQuery])
    next
      case (Some r')
      show ?thesis
      proof (cases "trim r' = []")
        case True
        with Pair Some show ?thesis
          by (simp add: parse_while.simps [of query restOfQuery]
              parse_loop.simps [of query restOfQuery])
      next
        case False
        from "1.IH" [OF Pair [symmetric] Some False] Pair Some False show ?thesis
          by (simp add: parse_while.simps [of query restOfQuery]
              parse_loop.simps [of query restOfQuery])
      qed
    qed
  qed
qed

section \<open>Rounds of the scanning loops\<close>

lemma getFirstKeywordOutsideComments_body_index:
  "getFirstKeywordOutsideComments_body charArray index s = Next index' s' \<Longrightarrow> index \<le> index'"
  by (auto simp: getFirstKeywordOutsideComments_body_def Let_def split: if_splits)

lemma getStatements_body_exclusive:
  "getStatements_body charArray index s = Continue index' s' \<Longrightarrow>
   \<not> (isInString s \<and> isInComment s) \<Longrightarrow> \<not> (isInString s' \<and> isInComment s')"
  by (auto simp: getStatements_body_def Let_def split: if_splits)

lemma getStatements_body_Break:
  "getStatements_body charArray index s = Break k \<Longrightarrow>
   charArray ! index = CHR '';'' \<and> k = index + 1 \<and> \<not> isInString s \<and> \<not> isInComment s"
  by (auto simp: getStatements_body_def Let_def split: if_splits)

lemma getStatements_loop_delimiter:
  "getStatements_loop charArray index s = Some k \<Longrightarrow> charArray ! (k - 1) = CHR '';''"
proof (induction charArray index s rule: getStatements_loop.induct)
  case (1 charArray index s)
  from "1.prems" have less: "index < length charArray"
    by (simp add: getStatements_loop.simps [of charArray index s] split: if_splits)
  show ?case
  proof (cases "getStatements_body charArray index s")
    case (Continue index' s')
    with "1.prems" less have "getStatements_loop charArray (index' + 1) s' = Some k"
      by (simp add: getStatements_loop.simps [of charArray index s])
    with "1.IH" [OF less Continue] show ?thesis by simp
  next
    case (Break j)
    with "1.prems" less have "k = j"
      by (simp add: getStatements_loop.simps [of charArray index s])
    with Break show ?thesis
      by (auto dest: getStatements_body_Break)
  qed
qed

section \<open>Trimming\<close>

lemma dropWhile_rev_dropWhile_head:
  assumes "ys = [] \<or> \<not> P (hd ys)"
  shows "dropWhile P (rev (dropWhile P (rev ys))) = rev (dropWhile P (rev ys))"
proof (cases ys)
  case Nil
  then show ?thesis by simp
next
  case (Cons u us)
  with assms have u: "\<not> P u" by simp
  then have "rev (dropWhile P (rev (u # us))) = u # rev (dropWhile P (rev us))"
    by (simp add: dropWhile_append)
  with Cons u show ?thesis by simp
qed

lemma dropWhile_rev_dropWhile:
  "dropWhile P (rev (dropWhile P (rev (dropWhile P xs)))) = rev (dropWhile P (rev (dropWhile P xs)))"
proof (rule dropWhile_rev_dropWhile_head)
  show "dropWhile P xs = [] \<or> \<not> P (hd (dropWhile P xs))"
    using hd_dropWhile [of P xs] by blast
qed

lemma trim_trim: "trim (trim s) = trim s"
  by (simp add: trim_def dropWhile_rev_dropWhile)

section \<open>Text after the scanned part, and white space before it\<close>

text \<open>The loop finds the same delimiter when text is appended to the array; white space
  in front of the array moves the delimiter by one place for each character; hence the
  statement of a round, scanned on its own, holds no delimiter.\<close>

lemma getStatements_body_step:
  "getStatements_body charArray index s =
     getStatements_step (if index > 0 then Some (charArray ! (index - 1)) else None)
       (charArray ! index)
       (if index + 1 < length charArray then Some (charArray ! (index + 1)) else None)
       (index + 2 < length charArray \<and> charArray ! (index + 1) = charArray ! index
          \<and> charArray ! (index + 2) = charArray ! index)
       index s"
  unfolding getStatements_body_def getStatements_step_def Let_def by (rule refl)

lemma getStatements_step_semicolon:
  "stringChar s \<noteq> Some (CHR '';'') \<Longrightarrow>
   getStatements_step previousChar (CHR '';'') nextChar triple index s =
   getStatements_step previousChar (CHR '';'') nextChar triple' index s"
  by (simp add: getStatements_step_def)

lemma getStatements_step_semicolon_Break:
  "\<not> isInString s \<Longrightarrow> \<not> isInComment s \<Longrightarrow>
   getStatements_step previousChar (CHR '';'') nextChar triple index s = Break (index + 1)"
  by (simp add: getStatements_step_def)

lemma getStatements_body_append:
  assumes near: "index + 1 < length xs"
    and far: "index + 2 < length xs \<or> xs ! (index + 1) = CHR '';''"
    and str: "stringChar s \<noteq> Some (CHR '';'')"
  shows "getStatements_body (xs @ zs) index s = getStatements_body xs index s"
proof -
  from near have "index - 1 < length xs" by arith
  with near have nth: "(xs @ zs) ! index = xs ! index"
    "(xs @ zs) ! (index - 1) = xs ! (index - 1)"
    "(xs @ zs) ! (index + 1) = xs ! (index + 1)"
    by (simp_all add: nth_append)
  have c: "(xs @ zs) ! index = xs ! index" by (rule nth(1))
  have p: "(if index > 0 then Some ((xs @ zs) ! (index - 1)) else None) =
           (if index > 0 then Some (xs ! (index - 1)) else None)"
    by (simp only: nth(2))
  have n: "(if index + 1 < length (xs @ zs) then Some ((xs @ zs) ! (index + 1)) else None) =
           (if index + 1 < length xs then Some (xs ! (index + 1)) else None)"
    using near by (simp add: nth_append)
  show ?thesis
  proof (cases "xs ! index = CHR '';''")
    case True
    show ?thesis
      unfolding getStatements_body_step c p n True
      by (rule getStatements_step_semicolon [OF str])
  next
    case False
    have t: "(index + 2 < length (xs @ zs) \<and> (xs @ zs) ! (index + 1) = xs ! index
                \<and> (xs @ zs) ! (index + 2) = xs ! index) =
             (index + 2 < length xs \<and> xs ! (index + 1) = xs ! index
                \<and> xs ! (index + 2) = xs ! index)"
    proof (cases "index + 2 < length xs")
      case True
      then have "(xs @ zs) ! (index + 2) = xs ! (index + 2)"
        by (simp add: nth_append)
      with True nth(3) show ?thesis by simp
    next
      case far': False
      with far have "xs ! (index + 1) = CHR '';''" by simp
      with False nth(3) far' show ?thesis by simp
    qed
    show ?thesis
      by (simp only: getStatements_body_step c p n t)
  qed
qed

lemma getStatements_body_append_Break:
  assumes "index < length xs" and "getStatements_body xs index s = Break k"
  shows "getStatements_body (xs @ zs) index s = Break k"
proof -
  from getStatements_body_Break [OF assms(2)]
  have f: "xs ! index = CHR '';''" "k = index + 1" "\<not> isInString s" "\<not> isInComment s"
    by simp_all
  from assms(1) f(1) have c: "(xs @ zs) ! index = CHR '';''"
    by (simp add: nth_append)
  show ?thesis
    by (simp only: getStatements_body_step c getStatements_step_semicolon_Break [OF f(3,4)] f(2))
qed


lemma getStatements_body_stringChar_cases:
  "getStatements_body charArray index s = Continue index' s' \<Longrightarrow>
   stringChar s' = stringChar s \<or> stringChar s' = None \<or>
   stringChar s' \<in> {Some (CHR 0x27), Some (CHR 0x22), Some (CHR 0x60)}"
  unfolding getStatements_body_def Let_def
  by (simp split: if_splits) auto

lemma getStatements_body_stringChar:
  assumes "getStatements_body charArray index s = Continue index' s'"
    and "stringChar s \<noteq> Some (CHR '';'')"
  shows "stringChar s' \<noteq> Some (CHR '';'')"
  using getStatements_body_stringChar_cases [OF assms(1)] assms(2) by auto

lemma getStatements_loop_append:
  "getStatements_loop xs index s = Some k \<Longrightarrow> stringChar s \<noteq> Some (CHR '';'') \<Longrightarrow>
   getStatements_loop (xs @ zs) index s = Some k"
proof (induction xs index s rule: getStatements_loop.induct)
  case (1 xs index s)
  from "1.prems" have less: "index < length xs"
    by (simp add: getStatements_loop.simps [of xs index s] split: if_splits)
  then have less': "index < length (xs @ zs)" by simp
  show ?case
  proof (cases "getStatements_body xs index s")
    case (Break j)
    with "1.prems" less have "k = j"
      by (simp add: getStatements_loop.simps [of xs index s])
    with getStatements_body_append_Break [OF less Break, of zs] less' show ?thesis
      by (subst getStatements_loop.simps) simp
  next
    case (Continue index' s')
    with "1.prems" less have run: "getStatements_loop xs (index' + 1) s' = Some k"
      by (simp add: getStatements_loop.simps [of xs index s])
    from Continue have le: "index \<le> index'"
      by (rule getStatements_body_index)
    from getStatements_loop_bounds [OF run] have k: "index' + 1 < k" "k \<le> length xs"
      by simp_all
    from le k have near: "index + 1 < length xs" by simp
    have far: "index + 2 < length xs \<or> xs ! (index + 1) = CHR '';''"
    proof (cases "index + 2 < length xs")
      case True
      then show ?thesis by simp
    next
      case False
      with le k have "k - 1 = index + 1" by simp
      with getStatements_loop_delimiter [OF run] show ?thesis by simp
    qed
    from getStatements_body_append [OF near far "1.prems"(2)] Continue
    have body: "getStatements_body (xs @ zs) index s = Continue index' s'"
      by simp
    from Continue "1.prems"(2) have "stringChar s' \<noteq> Some (CHR '';'')"
      by (rule getStatements_body_stringChar)
    with "1.IH" [OF less Continue run]
    have "getStatements_loop (xs @ zs) (index' + 1) s' = Some k" .
    with body less' show ?thesis
      by (subst getStatements_loop.simps) simp
  qed
qed


lemma scanner_init_stringChar: "stringChar scanner_init \<noteq> Some (CHR '';'')"
  by (simp add: scanner_init_def)

lemma getStatements_loop_take:
  assumes "getStatements_loop query 0 scanner_init = Some k"
  shows "getStatements_loop (take (k - 1) query) 0 scanner_init = None"
proof (rule ccontr)
  assume "getStatements_loop (take (k - 1) query) 0 scanner_init \<noteq> None"
  then obtain j where j: "getStatements_loop (take (k - 1) query) 0 scanner_init = Some j"
    by blast
  from getStatements_loop_append [OF j scanner_init_stringChar, of "drop (k - 1) query"]
  have "getStatements_loop query 0 scanner_init = Some j" by simp
  with assms have "j = k" by simp
  moreover from getStatements_loop_bounds [OF j] have "j \<le> k - 1" by simp
  moreover from getStatements_loop_bounds [OF assms] have "0 < k" by simp
  ultimately show False by simp
qed

lemma getStatements_loop_prefix_None:
  assumes "getStatements_loop (xs @ zs) 0 scanner_init = None"
  shows "getStatements_loop xs 0 scanner_init = None"
proof (rule ccontr)
  assume "getStatements_loop xs 0 scanner_init \<noteq> None"
  then obtain j where "getStatements_loop xs 0 scanner_init = Some j" by blast
  from getStatements_loop_append [OF this scanner_init_stringChar, of zs] assms
  show False by simp
qed

lemma getStatements_step_previousChar:
  assumes "(previousChar = Some (CHR 0x5C)) = (previousChar' = Some (CHR 0x5C))"
  shows "getStatements_step previousChar' char nextChar triple index s =
         getStatements_step previousChar char nextChar triple index s"
proof (cases "previousChar = Some (CHR 0x5C)")
  case True
  with assms have "previousChar' = Some (CHR 0x5C)" by simp
  with True show ?thesis by (simp only:)
next
  case False
  with assms have False': "previousChar' \<noteq> Some (CHR 0x5C)" by simp
  show ?thesis
    unfolding getStatements_step_def by (simp only: False False')
qed

lemma flow_shift_simps:
  "flow_shift (Continue j t) = Continue (Suc j) t"
  "flow_shift (Break k) = Break (Suc k)"
  by (simp_all add: flow_shift_def)

lemma getStatements_step_Suc:
  "getStatements_step previousChar char nextChar triple (Suc index) s =
   flow_shift (getStatements_step previousChar char nextChar triple index s)"
  unfolding getStatements_step_def
  by (simp only: if_distrib [of flow_shift] flow_shift_simps add_Suc)

lemma getStatements_step_shift:
  assumes "(previousChar = Some (CHR 0x5C)) = (previousChar' = Some (CHR 0x5C))"
  shows "getStatements_step previousChar' char nextChar triple (Suc index) s =
         flow_shift (getStatements_step previousChar char nextChar triple index s)"
  by (simp only: getStatements_step_Suc getStatements_step_previousChar [OF assms])

lemma getStatements_body_Cons:
  assumes "0 < index \<or> w \<noteq> CHR 0x5C"
  shows "getStatements_body (w # ys) (Suc index) s = flow_shift (getStatements_body ys index s)"
proof -
  have p: "((if index > 0 then Some (ys ! (index - 1)) else None) = Some (CHR 0x5C)) =
           ((if Suc index > 0 then Some ((w # ys) ! (Suc index - 1)) else None) = Some (CHR 0x5C))"
    using assms by (cases index) simp_all
  have n: "(if Suc index + 1 < length (w # ys) then Some ((w # ys) ! (Suc index + 1)) else None) =
           (if index + 1 < length ys then Some (ys ! (index + 1)) else None)"
    by simp
  have c: "(w # ys) ! Suc index = ys ! index" by simp
  have t: "(Suc index + 2 < length (w # ys) \<and> (w # ys) ! (Suc index + 1) = ys ! index
              \<and> (w # ys) ! (Suc index + 2) = ys ! index) =
           (index + 2 < length ys \<and> ys ! (index + 1) = ys ! index \<and> ys ! (index + 2) = ys ! index)"
    by simp
  show ?thesis
    unfolding getStatements_body_step c n t
    by (rule getStatements_step_shift [OF p])
qed

lemma getStatements_loop_Cons:
  "0 < index \<or> w \<noteq> CHR 0x5C \<Longrightarrow>
   getStatements_loop (w # ys) (Suc index) s = map_option Suc (getStatements_loop ys index s)"
proof (induction ys index s rule: getStatements_loop.induct)
  case (1 ys index s)
  show ?case
  proof (cases "index < length ys")
    case False
    then show ?thesis
      by (simp add: getStatements_loop.simps [of ys index s]
          getStatements_loop.simps [of "w # ys" "Suc index" s])
  next
    case True
    show ?thesis
    proof (cases "getStatements_body ys index s")
      case (Break j)
      with True getStatements_body_Cons [OF "1.prems", of ys s] show ?thesis
        by (simp add: getStatements_loop.simps [of ys index s]
            getStatements_loop.simps [of "w # ys" "Suc index" s] flow_shift_def)
    next
      case (Continue index' s')
      from "1.IH" [OF True Continue] have "getStatements_loop (w # ys) (Suc (index' + 1)) s' =
          map_option Suc (getStatements_loop ys (index' + 1) s')"
        by simp
      with True Continue getStatements_body_Cons [OF "1.prems", of ys s] show ?thesis
        by (simp add: getStatements_loop.simps [of ys index s]
            getStatements_loop.simps [of "w # ys" "Suc index" s] flow_shift_def)
    qed
  qed
qed

lemma getStatements_step_whitespace:
  assumes "isWhiteSpace char"
  shows "getStatements_step previousChar char nextChar triple index scanner_init =
         Continue index scanner_init"
proof -
  from assms have "char \<noteq> CHR 0x27" "char \<noteq> CHR 0x22" "char \<noteq> CHR 0x60"
    "char \<noteq> CHR ''#''" "char \<noteq> CHR ''-''" "char \<noteq> CHR ''/''" "char \<noteq> CHR '';''"
    by (auto simp: isWhiteSpace_def)
  then show ?thesis
    by (simp add: getStatements_step_def scanner_init_def)
qed

lemma getStatements_loop_leading:
  assumes "isWhiteSpace w"
  shows "getStatements_loop (w # ys) 0 scanner_init =
         map_option Suc (getStatements_loop ys 0 scanner_init)"
proof -
  from assms have "getStatements_body (w # ys) 0 scanner_init = Continue 0 scanner_init"
    by (simp only: getStatements_body_step nth_Cons_0 getStatements_step_whitespace)
  then have "getStatements_loop (w # ys) 0 scanner_init =
      getStatements_loop (w # ys) (Suc 0) scanner_init"
    by (simp add: getStatements_loop.simps [of "w # ys" 0])
  moreover from assms have "w \<noteq> CHR 0x5C"
    by (auto simp: isWhiteSpace_def)
  ultimately show ?thesis
    by (simp add: getStatements_loop_Cons)
qed

lemma getStatements_loop_dropWhile:
  "getStatements_loop xs 0 scanner_init = None \<Longrightarrow>
   getStatements_loop (dropWhile isWhiteSpace xs) 0 scanner_init = None"
proof (induction xs)
  case Nil
  then show ?case by simp
next
  case (Cons w xs)
  show ?case
  proof (cases "isWhiteSpace w")
    case True
    with Cons.prems have "getStatements_loop xs 0 scanner_init = None"
      by (simp add: getStatements_loop_leading)
    with Cons.IH True show ?thesis by simp
  next
    case False
    with Cons.prems show ?thesis by simp
  qed
qed

lemma trim_append_trailing:
  "trim xs @ rev (takeWhile isWhiteSpace (rev (dropWhile isWhiteSpace xs))) =
   dropWhile isWhiteSpace xs"
proof -
  let ?u = "dropWhile isWhiteSpace xs"
  have "trim xs @ rev (takeWhile isWhiteSpace (rev ?u)) =
      rev (takeWhile isWhiteSpace (rev ?u) @ dropWhile isWhiteSpace (rev ?u))"
    by (simp only: rev_append trim_def)
  also have "\<dots> = rev (rev ?u)"
    by (simp only: takeWhile_dropWhile_id)
  finally show ?thesis by simp
qed

lemma getStatements_loop_trim:
  assumes "getStatements_loop xs 0 scanner_init = None"
  shows "getStatements_loop (trim xs) 0 scanner_init = None"
proof -
  from assms have "getStatements_loop (dropWhile isWhiteSpace xs) 0 scanner_init = None"
    by (rule getStatements_loop_dropWhile)
  then have "getStatements_loop
      (trim xs @ rev (takeWhile isWhiteSpace (rev (dropWhile isWhiteSpace xs)))) 0
      scanner_init = None"
    by (simp only: trim_append_trailing)
  then show ?thesis
    by (rule getStatements_loop_prefix_None)
qed

lemma getStatements_statement_no_delimiter:
  assumes "getStatements query = (statement, rest)"
  shows "getStatements_loop statement 0 scanner_init = None"
proof (cases "getStatements_loop query 0 scanner_init")
  case None
  with assms have "statement = trim query"
    by (simp add: getStatements_def)
  with None show ?thesis
    by (simp add: getStatements_loop_trim)
next
  case (Some k)
  with assms have "statement = trim (take (k - 1) query)"
    by (simp add: getStatements_def getQueryParts_def substring_def Let_def)
  with getStatements_loop_take [OF Some] show ?thesis
    by (simp add: getStatements_loop_trim)
qed

lemma getStatements_statement_trimmed:
  "getStatements query = (statement, rest) \<Longrightarrow> trim statement = statement"
  by (auto simp: getStatements_def getQueryParts_def Let_def trim_trim split: option.splits)

lemma parse_single:
  assumes "getStatements_loop s 0 scanner_init = None" and "trim s = s" and "s \<noteq> []"
  shows "parse s = [s]"
proof -
  from assms(1,2) have "getStatements s = (s, None)"
    by (simp add: getStatements_def)
  with assms(2,3) show ?thesis
    by (simp add: parse_unfold [of s])
qed

lemma parse_statement_facts:
  "\<forall>s\<in>set (parse query). getStatements_loop s 0 scanner_init = None \<and> trim s = s \<and> s \<noteq> []"
proof (induction query rule: length_induct)
  case (1 r)
  show ?case
  proof (cases "getStatements r")
    case (Pair statement rest)
    note facts = getStatements_statement_no_delimiter [OF Pair]
      getStatements_statement_trimmed [OF Pair]
    show ?thesis
    proof (cases rest)
      case None
      with Pair facts show ?thesis
        by (auto simp: parse_unfold [of r])
    next
      case (Some r')
      with Pair have "length r' < length r"
        by (simp add: getStatements_rest_shorter)
      with 1 have "\<forall>s\<in>set (parse r').
          getStatements_loop s 0 scanner_init = None \<and> trim s = s \<and> s \<noteq> []"
        by blast
      with Pair Some facts show ?thesis
        by (auto simp: parse_unfold [of r])
    qed
  qed
qed

section \<open>The keyword scan of the code and of the specification\<close>

text \<open>Where no foreign comment start stands inside a comment before the keyword and the
  keyword does not end at a comment, the loop of \<open>getFirstKeywordOutsideComments\<close> returns
  the leading keyword of the specification.\<close>

lemma nextChar_drop:
  "(if i + 1 < length cs then Some (cs ! (i + 1)) else None) =
   (case drop (Suc i) cs of [] \<Rightarrow> None | n # _ \<Rightarrow> Some n)"
proof (cases "Suc i < length cs")
  case True
  then have "drop (Suc i) cs = cs ! Suc i # drop (Suc (Suc i)) cs"
    by (simp add: Cons_nth_drop_Suc)
  with True show ?thesis by simp
next
  case False
  then show ?thesis by simp
qed

lemma keyword_body_Normal:
  "getFirstKeywordOutsideComments_body cs i (keyword_scanner_of Normal k) =
     (if starts_comment (cs ! i) (drop (Suc i) cs)
      then Next i (keyword_scanner_of (InComment (cs ! i)) k)
      else if isWhiteSpace (cs ! i)
      then (if k = [] then Next i (keyword_scanner_of Normal k) else Return k)
      else Next i (keyword_scanner_of Normal (k @ [cs ! i])))"
  unfolding getFirstKeywordOutsideComments_body_def Let_def nextChar_drop
  by (cases "drop (Suc i) cs") (simp_all add: starts_comment_def keyword_scanner_of_def)

lemma keyword_body_InComment:
  "getFirstKeywordOutsideComments_body cs i (keyword_scanner_of (InComment m) k) =
     (if starts_comment (cs ! i) (drop (Suc i) cs)
      then Next i (keyword_scanner_of (InComment (cs ! i)) k)
      else if (m = CHR ''#'' \<or> m = CHR ''-'') \<and> cs ! i = CHR 0x0A
      then Next i (keyword_scanner_of Normal k)
      else if m = CHR ''/'' \<and> cs ! i = CHR ''*'' \<and>
              (case drop (Suc i) cs of [] \<Rightarrow> False | n # _ \<Rightarrow> n = CHR ''/'')
      then Next (i + 1) (keyword_scanner_of Normal k)
      else Next i (keyword_scanner_of (InComment m) k))"
  unfolding getFirstKeywordOutsideComments_body_def Let_def nextChar_drop
  by (cases "drop (Suc i) cs") (auto simp: starts_comment_def keyword_scanner_of_def)


lemma starts_comment_char:
  "starts_comment c r \<Longrightarrow> c \<noteq> CHR 0x0A \<and> c \<noteq> CHR ''*'' \<and> r \<noteq> []"
  by (auto simp: starts_comment_def split: list.splits)

lemma keyword_loop_spec:
  assumes "i \<le> length cs"
    and "k = [] \<Longrightarrow> Foreign \<notin> set (before_keyword m (drop i cs))"
    and "k = [] \<or> m = Normal"
    and "ends_outside (dropWhile in_keyword (keyword_view m k (drop i cs)))"
  shows "getFirstKeywordOutsideComments_loop cs i (keyword_scanner_of m k) =
         k @ map fst (takeWhile in_keyword (keyword_view m k (drop i cs)))"
  using assms
proof (induction "length cs - i" arbitrary: i m k rule: less_induct)
  case less
  show ?case
  proof (cases "i < length cs")
    case False
    with less.prems(1) have "drop i cs = []" by simp
    with False show ?thesis
      by (simp add: getFirstKeywordOutsideComments_loop.simps [of cs i] keyword_view_def
          keyword_scanner_of_def split: ScanMode.splits)
  next
    case True
    define c where "c = cs ! i"
    define r where "r = drop (Suc i) cs"
    from True have d: "drop i cs = c # r"
      by (simp add: c_def r_def Cons_nth_drop_Suc)
    have IH: "getFirstKeywordOutsideComments_loop cs j (keyword_scanner_of m' k') =
        k' @ map fst (takeWhile in_keyword (keyword_view m' k' (drop j cs)))"
      if "i < j" "j \<le> length cs"
        "k' = [] \<Longrightarrow> Foreign \<notin> set (before_keyword m' (drop j cs))"
        "k' = [] \<or> m' = Normal"
        "ends_outside (dropWhile in_keyword (keyword_view m' k' (drop j cs)))"
      for j m' k'
      using less.hyps [where i = j and m = m' and k = k'] that by (simp add: diff_less_mono2)
    have step: "getFirstKeywordOutsideComments_loop cs i s =
        (case getFirstKeywordOutsideComments_body cs i s of
           Return k \<Rightarrow> k
         | Next i' s' \<Rightarrow> getFirstKeywordOutsideComments_loop cs (i' + 1) s')" for s
      using True by (simp add: getFirstKeywordOutsideComments_loop.simps [of cs i])
    from True have Suc_le: "Suc i \<le> length cs" by simp
    show ?thesis
    proof (cases m)
      case Normal
      show ?thesis
      proof (cases "starts_comment c r")
        case start: True
        then have tags: "comment_tags Normal (c # r) = Shielded # comment_tags (InComment c) r"
          by simp
        have k: "k = []"
        proof (rule ccontr)
          assume "k \<noteq> []"
          with less.prems(4) Normal d tags show False
            by (simp add: keyword_view_def in_keyword_def ends_outside_def)
        qed
        from tags have view: "keyword_view Normal [] (c # r) = keyword_view (InComment c) [] r"
          by (simp add: keyword_view_def in_keyword_def)
        from less.prems(2) [OF k] Normal d tags
        have "Foreign \<notin> set (before_keyword (InComment c) (drop (Suc i) cs))"
          by (simp add: before_keyword_def in_keyword_def r_def)
        moreover from less.prems(4) Normal d k view
        have "ends_outside (dropWhile in_keyword (keyword_view (InComment c) [] (drop (Suc i) cs)))"
          by (simp add: r_def)
        ultimately have "getFirstKeywordOutsideComments_loop cs (Suc i)
            (keyword_scanner_of (InComment c) []) =
            [] @ map fst (takeWhile in_keyword (keyword_view (InComment c) [] (drop (Suc i) cs)))"
          using Suc_le by (intro IH) simp_all
        with start Normal d k view show ?thesis
          by (simp add: step keyword_body_Normal c_def [symmetric] r_def [symmetric])
      next
        case nostart: False
        then have tags: "comment_tags Normal (c # r) = Significant # comment_tags Normal r"
          by simp
        show ?thesis
        proof (cases "isWhiteSpace c")
          case ws: True
          show ?thesis
          proof (cases "k = []")
            case True
            from tags ws have view: "keyword_view Normal [] (c # r) = keyword_view Normal [] r"
              by (simp add: keyword_view_def in_keyword_def)
            from less.prems(2) [OF True] Normal d tags ws
            have "Foreign \<notin> set (before_keyword Normal (drop (Suc i) cs))"
              by (simp add: before_keyword_def in_keyword_def r_def)
            moreover from less.prems(4) Normal d True view
            have "ends_outside (dropWhile in_keyword (keyword_view Normal [] (drop (Suc i) cs)))"
              by (simp add: r_def)
            ultimately have "getFirstKeywordOutsideComments_loop cs (Suc i)
                (keyword_scanner_of Normal []) =
                [] @ map fst (takeWhile in_keyword (keyword_view Normal [] (drop (Suc i) cs)))"
              using Suc_le by (intro IH) simp_all
            with nostart ws Normal d True view show ?thesis
              by (simp add: step keyword_body_Normal c_def [symmetric] r_def [symmetric])
          next
            case False
            with tags ws have "takeWhile in_keyword (keyword_view Normal k (c # r)) = []"
              by (simp add: keyword_view_def in_keyword_def)
            with nostart ws Normal d False show ?thesis
              by (simp add: step keyword_body_Normal c_def [symmetric] r_def [symmetric])
          qed
        next
          case nows: False
          with tags have view: "keyword_view Normal k (c # r) =
              (c, Significant) # keyword_view Normal (k @ [c]) r"
            by (simp add: keyword_view_def in_keyword_def)
          from nows have ink: "in_keyword (c, Significant)"
            by (simp add: in_keyword_def)
          from less.prems(4) Normal d view ink
          have "ends_outside (dropWhile in_keyword
              (keyword_view Normal (k @ [c]) (drop (Suc i) cs)))"
            by (simp add: r_def)
          then have "getFirstKeywordOutsideComments_loop cs (Suc i)
              (keyword_scanner_of Normal (k @ [c])) =
              (k @ [c]) @ map fst (takeWhile in_keyword
                (keyword_view Normal (k @ [c]) (drop (Suc i) cs)))"
            using Suc_le by (intro IH) simp_all
          with nostart nows Normal d view ink show ?thesis
            by (simp add: step keyword_body_Normal c_def [symmetric] r_def [symmetric])
        qed
      qed
    next
      case (InComment m0)
      with less.prems(3) have k: "k = []" by simp
      note foreign = less.prems(2) [OF k]
      show ?thesis
      proof (cases r)
        case Nil
        then have "Suc i = length cs"
          using True by (simp add: r_def)
        then have at_end: "getFirstKeywordOutsideComments_loop cs (Suc i) s = keyword s" for s
          using getFirstKeywordOutsideComments_loop.simps [of cs "Suc i" s] by simp
        from Nil have "getFirstKeywordOutsideComments_body cs i
            (keyword_scanner_of (InComment m0) []) = Next i (keyword_scanner_of Normal []) \<or>
          getFirstKeywordOutsideComments_body cs i
            (keyword_scanner_of (InComment m0) []) = Next i (keyword_scanner_of (InComment m0) [])"
          by (simp add: keyword_body_InComment r_def [symmetric] starts_comment_def)
        then have "getFirstKeywordOutsideComments_loop cs i
            (keyword_scanner_of (InComment m0) []) = []"
          by (auto simp: step at_end keyword_scanner_of_def)
        with InComment k d Nil show ?thesis
          by (simp add: keyword_view_def in_keyword_def)
      next
        case (Cons n r')
        from Cons have two: "Suc (Suc i) \<le> length cs" and d2: "drop (Suc (Suc i)) cs = r'"
          and d1: "drop (Suc i) cs = n # r'"
          using True by (auto simp: r_def dest: arg_cong [where f = length] arg_cong [where f = tl]
              simp: drop_Suc tl_drop)
        show ?thesis
        proof (cases "starts_comment c r")
          case start: True
          with foreign InComment d Cons have same: "c = m0"
            by (auto simp: before_keyword_def in_keyword_def split: if_splits)
          from start have not_end: "c \<noteq> CHR 0x0A" "c \<noteq> CHR ''*''"
            using starts_comment_char by blast+
          with start same Cons have tags:
            "comment_tags (InComment m0) (c # r) = Shielded # comment_tags (InComment m0) r"
            by simp
          then have view: "keyword_view (InComment m0) [] (c # r) = keyword_view (InComment m0) [] r"
            by (simp add: keyword_view_def in_keyword_def)
          from foreign InComment d tags
          have "Foreign \<notin> set (before_keyword (InComment m0) (drop (Suc i) cs))"
            by (simp add: before_keyword_def in_keyword_def r_def)
          moreover from less.prems(4) InComment d k view
          have "ends_outside (dropWhile in_keyword
              (keyword_view (InComment m0) [] (drop (Suc i) cs)))"
            by (simp add: r_def)
          ultimately have "getFirstKeywordOutsideComments_loop cs (Suc i)
              (keyword_scanner_of (InComment m0) []) =
              [] @ map fst (takeWhile in_keyword
                (keyword_view (InComment m0) [] (drop (Suc i) cs)))"
            using Suc_le by (intro IH) simp_all
          with start same InComment d k view show ?thesis
            by (simp add: step keyword_body_InComment c_def [symmetric] r_def [symmetric])
        next
          case nostart: False
          show ?thesis
          proof (cases "(m0 = CHR ''#'' \<or> m0 = CHR ''-'') \<and> c = CHR 0x0A")
            case line: True
            with nostart Cons have tags:
              "comment_tags (InComment m0) (c # r) = Shielded # comment_tags Normal r"
              by simp
            then have view: "keyword_view (InComment m0) [] (c # r) = keyword_view Normal [] r"
              by (simp add: keyword_view_def in_keyword_def)
            from foreign InComment d tags
            have "Foreign \<notin> set (before_keyword Normal (drop (Suc i) cs))"
              by (simp add: before_keyword_def in_keyword_def r_def)
            moreover from less.prems(4) InComment d k view
            have "ends_outside (dropWhile in_keyword (keyword_view Normal [] (drop (Suc i) cs)))"
              by (simp add: r_def)
            ultimately have "getFirstKeywordOutsideComments_loop cs (Suc i)
                (keyword_scanner_of Normal []) =
                [] @ map fst (takeWhile in_keyword (keyword_view Normal [] (drop (Suc i) cs)))"
              using Suc_le by (intro IH) simp_all
            with nostart line InComment d k view show ?thesis
              by (simp add: step keyword_body_InComment c_def [symmetric] r_def [symmetric])
          next
            case noline: False
            show ?thesis
            proof (cases "m0 = CHR ''/'' \<and> c = CHR ''*'' \<and> n = CHR ''/''")
              case block: True
              with nostart noline Cons have tags:
                "comment_tags (InComment m0) (c # r) = Shielded # Shielded # comment_tags Normal r'"
                by simp
              then have view: "keyword_view (InComment m0) [] (c # r) = keyword_view Normal [] r'"
                by (simp add: keyword_view_def in_keyword_def Cons)
              from foreign InComment d tags Cons
              have "Foreign \<notin> set (before_keyword Normal (drop (Suc (Suc i)) cs))"
                by (simp add: before_keyword_def in_keyword_def d2)
              moreover from less.prems(4) InComment d k view
              have "ends_outside (dropWhile in_keyword
                  (keyword_view Normal [] (drop (Suc (Suc i)) cs)))"
                by (simp add: d2)
              ultimately have "getFirstKeywordOutsideComments_loop cs (Suc (Suc i))
                  (keyword_scanner_of Normal []) =
                  [] @ map fst (takeWhile in_keyword
                    (keyword_view Normal [] (drop (Suc (Suc i)) cs)))"
                using two by (intro IH) simp_all
              with nostart noline block InComment d k view Cons show ?thesis
                by (simp add: step keyword_body_InComment c_def [symmetric] r_def [symmetric] d2)
            next
              case noblock: False
              with nostart noline Cons have tags:
                "comment_tags (InComment m0) (c # r) = Shielded # comment_tags (InComment m0) r"
                by auto
              then have view:
                "keyword_view (InComment m0) [] (c # r) = keyword_view (InComment m0) [] r"
                by (simp add: keyword_view_def in_keyword_def)
              from foreign InComment d tags
              have "Foreign \<notin> set (before_keyword (InComment m0) (drop (Suc i) cs))"
                by (simp add: before_keyword_def in_keyword_def r_def)
              moreover from less.prems(4) InComment d k view
              have "ends_outside (dropWhile in_keyword
                  (keyword_view (InComment m0) [] (drop (Suc i) cs)))"
                by (simp add: r_def)
              ultimately have "getFirstKeywordOutsideComments_loop cs (Suc i)
                  (keyword_scanner_of (InComment m0) []) =
                  [] @ map fst (takeWhile in_keyword
                    (keyword_view (InComment m0) [] (drop (Suc i) cs)))"
                using Suc_le by (intro IH) simp_all
              with nostart noline noblock InComment d k view Cons show ?thesis
                by (auto simp: step keyword_body_InComment c_def [symmetric] r_def [symmetric])
            qed
          qed
        qed
      qed
    qed
  qed
qed

lemma getFirstKeywordOutsideComments_spec:
  assumes "no_foreign_marker_before_keyword sql" and "keyword_ends_outside sql"
  shows "getFirstKeywordOutsideComments sql = firstKeyword_spec sql"
proof -
  have init: "keyword_scanner_of Normal [] = keyword_scanner_init"
    by (simp add: keyword_scanner_of_def keyword_scanner_init_def)
  from assms(2) have "ends_outside (dropWhile in_keyword (keyword_view Normal [] (drop 0 sql)))"
    by (simp add: keyword_ends_outside_def ends_outside_def keyword_view_def)
  moreover from assms(1) have "Foreign \<notin> set (before_keyword Normal (drop 0 sql))"
    by (simp add: no_foreign_marker_before_keyword_def)
  ultimately have "getFirstKeywordOutsideComments_loop sql 0 (keyword_scanner_of Normal []) =
      [] @ map fst (takeWhile in_keyword (keyword_view Normal [] (drop 0 sql)))"
    by (intro keyword_loop_spec) simp_all
  then show ?thesis
    by (simp add: getFirstKeywordOutsideComments_def firstKeyword_spec_def init keyword_view_def)
qed

lemma firstKeyword_spec_Nil: "firstKeyword_spec [] = []"
  by (simp add: firstKeyword_spec_def)

section \<open>No blank statement\<close>

text \<open>
  Claim C6. For every script, no statement that \<open>parse\<close> returns is empty or consists of
  white space only; two consecutive delimiters leave no entry between them, and
  \<open>SELECT 1;; SELECT 2\<close> is split into exactly two statements.
\<close>

theorem parse_no_blank_statement:
  "(\<forall>s\<in>set (parse query). s \<noteq> [] \<and> trim s \<noteq> []) \<and>
   parse ''SELECT 1;; SELECT 2'' = [''SELECT 1'', ''SELECT 2'']"
proof -
  have "parse ''SELECT 1;; SELECT 2'' = [''SELECT 1'', ''SELECT 2'']"
    by code_simp
  moreover have "s \<noteq> [] \<and> trim s \<noteq> []" if "s \<in> set (parse query)" for s
    using that parse_nonblank [of query] trim_Nil by auto
  ultimately show ?thesis by blast
qed

theorem parse_no_blank_statement_witness:
  "parse ''a; ;b'' = [''a'', ''b''] \<and> ''a'' \<noteq> [] \<and> trim ''a'' \<noteq> [] \<and> trim ''b'' \<noteq> []"
proof -
  have p: "parse ''a; ;b'' = [''a'', ''b'']"
    by code_simp
  with parse_no_blank_statement [of "''a; ;b''"] show ?thesis
    by simp
qed

section \<open>The statement and its delimiter\<close>

text \<open>
  Claim C2 says that no statement that \<open>parse\<close> returns holds the semicolon that ends it.
  In \<open>SELECT /*a*/* FROM t;\<close> the comment is \<open>/*a*/\<close> and the final semicolon ends the
  statement. \<open>getStatements\<close> leaves the index on the \<open>*\<close> of the closing \<open>*/\<close>, reads the
  \<open>/\<close> again with the \<open>*\<close> that follows as the start of a comment, never finds the
  delimiter, and \<open>parse\<close> returns the statement with its semicolon. With a space after the
  comment the semicolon is found and left out.
\<close>

theorem parse_keeps_terminating_semicolon:
  "parse ''SELECT /*a*/* FROM t;'' = [''SELECT /*a*/* FROM t;''] \<and>
   parse ''SELECT /*a*/ * FROM t;'' = [''SELECT /*a*/ * FROM t'']"
  by code_simp

section \<open>String and comment exclude each other\<close>

text \<open>
  Claim C9. Whenever the loop of \<open>getStatements\<close> starts a round, on any script, the locals
  \<open>isInString\<close> and \<open>isInComment\<close> are not both true.
\<close>

theorem getStatements_string_comment_exclusive:
  "getStatements_reaches charArray index s \<Longrightarrow> \<not> (isInString s \<and> isInComment s)"
proof (induction rule: getStatements_reaches.induct)
  case first_round
  show ?case by (simp add: scanner_init_def)
next
  case (next_round index s index' s')
  then show ?case
    using getStatements_body_exclusive by blast
qed

theorem getStatements_string_comment_exclusive_witness:
  "getStatements_reaches ''x`--''
     3 \<lparr>isInComment = False, commentChar = None,
        isInString = True, stringChar = Some (CHR 0x60), isInTripleQuotes = False\<rparr> \<and>
   \<not> (isInString \<lparr>isInComment = False, commentChar = None,
        isInString = True, stringChar = Some (CHR 0x60), isInTripleQuotes = False\<rparr> \<and>
      isInComment \<lparr>isInComment = False, commentChar = None,
        isInString = True, stringChar = Some (CHR 0x60), isInTripleQuotes = False\<rparr>)"
proof -
  let ?cs = "''x`--''"
  let ?str = "\<lparr>isInComment = False, commentChar = None,
        isInString = True, stringChar = Some (CHR 0x60), isInTripleQuotes = False\<rparr>"
  have r0: "getStatements_reaches ?cs 0 scanner_init"
    by (rule first_round)
  have "getStatements_body ?cs 0 scanner_init = Continue 0 scanner_init"
    by code_simp
  from next_round [OF r0 _ this] have r1: "getStatements_reaches ?cs 1 scanner_init"
    by simp
  have "getStatements_body ?cs 1 scanner_init = Continue 1 ?str"
    by code_simp
  from next_round [OF r1 _ this] have r2: "getStatements_reaches ?cs 2 ?str"
    by (simp add: eval_nat_numeral)
  have "getStatements_body ?cs 2 ?str = Continue 2 ?str"
    by code_simp
  from next_round [OF r2 _ this] have r3: "getStatements_reaches ?cs 3 ?str"
    by (simp add: eval_nat_numeral)
  with getStatements_string_comment_exclusive [OF r3] show ?thesis
    by simp
qed

section \<open>Termination\<close>

text \<open>
  Claim C10. \<open>parse\<close> and \<open>getStatementType\<close> return on every string. The \<open>while\<close> loop of
  \<open>parse\<close>, taken with no termination built in, returns the statements of \<open>parse\<close>; every
  round hands on a remainder that is \<open>null\<close> or strictly shorter than the text it has
  scanned; and no round of the two \<open>for\<close> loops moves its index backwards, which, with
  the increment of the loop header, bounds either loop by the length of the text. The
  model has no error value, since no operation of the two functions can fail on a
  string.
\<close>

theorem parse_getStatementType_terminate:
  "parse_while query None [] = Some (parse query) \<and>
   (\<forall>statement rest. getStatements query = (statement, Some rest)
      \<longrightarrow> length rest < length query) \<and>
   (\<forall>index s index' s'. getStatements_body query index s = Continue index' s'
      \<longrightarrow> index \<le> index') \<and>
   (\<forall>index s index' s'. getFirstKeywordOutsideComments_body query index s = Next index' s'
      \<longrightarrow> index \<le> index')"
  by (simp add: parse_while_parse_loop parse_def getStatements_rest_shorter
      getStatements_body_index(1) getFirstKeywordOutsideComments_body_index)

theorem parse_getStatementType_terminate_witness:
  "parse_while ''a;/*b'' None [] = Some [''a'', ''/*b''] \<and>
   getStatements ''a;/*b'' = (''a'', Some ''/*b'') \<and> length ''/*b'' < length ''a;/*b''"
proof -
  have p: "parse ''a;/*b'' = [''a'', ''/*b'']"
    by code_simp
  have g: "getStatements ''a;/*b'' = (''a'', Some ''/*b'')"
    by code_simp
  from parse_getStatementType_terminate [of "''a;/*b''"] p g show ?thesis
    by simp
qed

section \<open>Semicolons inside string literals\<close>

text \<open>
  Claim C1 says that a semicolon inside a string literal never ends a statement. The
  code cuts inside a literal: in the script of the two lines \<open>-- /*\<close> and \<open>'*/;'\<close> the
  first line is a line comment and the second a string literal that holds \<open>*/;\<close>. The
  test of \<open>getStatements\<close> for the start of a comment does not look at \<open>isInComment\<close>, so
  the \<open>/*\<close> inside the line comment replaces the remembered comment character, the
  newline no longer ends the comment, the opening quote is read as comment text, the
  \<open>*/\<close> inside the literal ends the comment, and the semicolon after it is taken for a
  delimiter. With other text in the line comment the same literal is kept whole.
\<close>

theorem parse_cuts_inside_string_literal:
  "parse (''-- /*'' @ [CHR 0x0A, CHR 0x27] @ ''*/;'' @ [CHR 0x27]) =
     [''-- /*'' @ [CHR 0x0A, CHR 0x27] @ ''*/'', [CHR 0x27]] \<and>
   parse (''-- xx'' @ [CHR 0x0A, CHR 0x27] @ ''*/;'' @ [CHR 0x27]) =
     [''-- xx'' @ [CHR 0x0A, CHR 0x27] @ ''*/;'' @ [CHR 0x27]]"
  by code_simp

section \<open>Splitting a statement again\<close>

text \<open>
  Claim C8. Every statement that \<open>parse\<close> returns, on any script, is split by \<open>parse\<close>
  into itself alone.
\<close>

theorem parse_idempotent: "\<forall>s\<in>set (parse query). parse s = [s]"
  using parse_statement_facts [of query] parse_single by blast

theorem parse_idempotent_witness:
  "parse ''x `;` ; y'' = [''x `;`'', ''y''] \<and> parse ''x `;`'' = [''x `;`''] \<and> parse ''y'' = [''y'']"
proof -
  have "parse ''x `;` ; y'' = [''x `;`'', ''y'']"
    by code_simp
  with parse_idempotent [of "''x `;` ; y''"] show ?thesis
    by simp
qed


section \<open>The two revisions of the splitter\<close>

text \<open>
  Claim C7. The two revisions of the splitter disagree on the terminating semicolon: on
  the script \<open>SELECT 1; SELECT 2\<close> the earlier revision emits the first statement with
  its trailing \<open>;\<close> and the current revision emits it without, so the two functions are
  not equal.
\<close>

theorem parse_revisions_disagree:
  "parse_v1 ''SELECT 1; SELECT 2'' = [''SELECT 1;'', ''SELECT 2''] \<and>
   parse ''SELECT 1; SELECT 2'' = [''SELECT 1'', ''SELECT 2''] \<and>
   parse_v1 \<noteq> parse"
proof -
  have v1: "parse_v1 ''SELECT 1; SELECT 2'' = [''SELECT 1;'', ''SELECT 2'']"
    by code_simp
  have v2: "parse ''SELECT 1; SELECT 2'' = [''SELECT 1'', ''SELECT 2'']"
    by code_simp
  have "parse_v1 \<noteq> parse"
  proof
    assume "parse_v1 = parse"
    then have "parse_v1 ''SELECT 1; SELECT 2'' = parse ''SELECT 1; SELECT 2''"
      by simp
    with v1 v2 show False by simp
  qed
  with v1 v2 show ?thesis by simp
qed

section \<open>Classification by the leading keyword\<close>

text \<open>
  Claim C3, as stated, asks for a membership test of the first keyword outside comments.
  The code tests with \<open>startsWith\<close>: the keyword \<open>WITHDRAWAL\<close> is none of the statement
  keywords, and the statement is classified as a query. The code also goes on with the
  keyword after a comment that follows it directly: the first run of characters outside
  comments of \<open>SEL/**/ECT\<close> is \<open>SEL\<close>, which starts with none of the statement keywords,
  and the statement is classified as a query.
\<close>

theorem getStatementType_membership_counterexample:
  "getStatementType ''WITHDRAWAL'' = QUERY \<and>
   firstKeyword_spec ''WITHDRAWAL'' = ''WITHDRAWAL'' \<and>
   toUpperCase (getFirstKeywordOutsideComments ''WITHDRAWAL'') = ''WITHDRAWAL'' \<and>
   ''WITHDRAWAL'' \<noteq> ''SELECT'' \<and> ''WITHDRAWAL'' \<noteq> ''WITH'' \<and>
   getStatementType ''SEL/**/ECT'' = QUERY \<and>
   firstKeyword_spec ''SEL/**/ECT'' = ''SEL''"
  by code_simp

text \<open>
  Claim C3, amended. Take a statement in which no start of a comment with another
  comment character stands inside a comment before the first keyword outside comments
  (the first maximal run of non-white-space characters outside comments), and in which
  this keyword is followed by white space or ends the statement. It is a query iff that keyword, upper-cased, starts
  with \<open>SELECT\<close> or \<open>WITH\<close>, a data change iff it starts with \<open>INSERT\<close>, \<open>UPDATE\<close> or
  \<open>DELETE\<close>, a schema change iff it starts with \<open>CREATE\<close>, \<open>ALTER\<close> or \<open>DROP\<close>, and
  unspecified iff it starts with none of the eight words.
\<close>

theorem getStatementType_firstKeyword:
  assumes "no_foreign_marker_before_keyword sql" and "keyword_ends_outside sql"
  shows
  "(getStatementType sql = QUERY \<longleftrightarrow>
      startsWith (toUpperCase (firstKeyword_spec sql)) ''SELECT'' \<or>
      startsWith (toUpperCase (firstKeyword_spec sql)) ''WITH'') \<and>
   (getStatementType sql = DML \<longleftrightarrow>
      startsWith (toUpperCase (firstKeyword_spec sql)) ''INSERT'' \<or>
      startsWith (toUpperCase (firstKeyword_spec sql)) ''UPDATE'' \<or>
      startsWith (toUpperCase (firstKeyword_spec sql)) ''DELETE'') \<and>
   (getStatementType sql = DDL \<longleftrightarrow>
      startsWith (toUpperCase (firstKeyword_spec sql)) ''CREATE'' \<or>
      startsWith (toUpperCase (firstKeyword_spec sql)) ''ALTER'' \<or>
      startsWith (toUpperCase (firstKeyword_spec sql)) ''DROP'') \<and>
   (getStatementType sql = UNSPECIFIED \<longleftrightarrow>
      \<not> (startsWith (toUpperCase (firstKeyword_spec sql)) ''SELECT'' \<or>
         startsWith (toUpperCase (firstKeyword_spec sql)) ''WITH'' \<or>
         startsWith (toUpperCase (firstKeyword_spec sql)) ''INSERT'' \<or>
         startsWith (toUpperCase (firstKeyword_spec sql)) ''UPDATE'' \<or>
         startsWith (toUpperCase (firstKeyword_spec sql)) ''DELETE'' \<or>
         startsWith (toUpperCase (firstKeyword_spec sql)) ''CREATE'' \<or>
         startsWith (toUpperCase (firstKeyword_spec sql)) ''ALTER'' \<or>
         startsWith (toUpperCase (firstKeyword_spec sql)) ''DROP''))"
proof -
  from assms have k: "getFirstKeywordOutsideComments sql = firstKeyword_spec sql"
    by (rule getFirstKeywordOutsideComments_spec)
  show ?thesis
  proof (cases "sql = []")
    case True
    then show ?thesis
      by (simp add: getStatementType_def firstKeyword_spec_Nil toUpperCase_def startsWith_def)
  next
    case False
    then show ?thesis
      by (auto simp: getStatementType_def k Let_def startsWith_def prefix_def)
  qed
qed

theorem getStatementType_firstKeyword_witness:
  "no_foreign_marker_before_keyword ''/* a /* b */ withdrawal /* -- */'' \<and>
   keyword_ends_outside ''/* a /* b */ withdrawal /* -- */'' \<and>
   firstKeyword_spec ''/* a /* b */ withdrawal /* -- */'' = ''withdrawal'' \<and>
   getStatementType ''/* a /* b */ withdrawal /* -- */'' = QUERY"
proof -
  let ?sql = "''/* a /* b */ withdrawal /* -- */''"
  have h1: "no_foreign_marker_before_keyword ?sql"
    by code_simp
  have h2: "keyword_ends_outside ?sql"
    by code_simp
  have k: "firstKeyword_spec ?sql = ''withdrawal''"
    by code_simp
  have "startsWith (toUpperCase ''withdrawal'') ''WITH''"
    by code_simp
  with getStatementType_firstKeyword [OF h1 h2] k have "getStatementType ?sql = QUERY"
    by simp
  with h1 h2 k show ?thesis by simp
qed

section \<open>Comment markers inside a comment\<close>

text \<open>
  Claim C4 says that a comment marker inside a comment changes nothing. In the code the
  test for the start of a comment does not look at \<open>isInComment\<close>: at the \<open>--\<close> inside
  \<open>/* a -- b */\<close> the remembered comment character changes from \<open>/\<close> to \<open>-\<close>, the closing
  \<open>*/\<close> no longer ends the comment, and the statement \<open>/* a -- b */ SELECT 1\<close> has no
  keyword and is classified as unspecified, not as a query.
\<close>

theorem getStatementType_marker_in_comment:
  "getFirstKeywordOutsideComments_body ''/* a -- b */ SELECT 1'' 5
     \<lparr>isInComment = True, commentChar = Some (CHR ''/''), keyword = []\<rparr>
   = Next 5 \<lparr>isInComment = True, commentChar = Some (CHR ''-''), keyword = []\<rparr> \<and>
   getFirstKeywordOutsideComments ''/* a -- b */ SELECT 1'' = [] \<and>
   getStatementType ''/* a -- b */ SELECT 1'' = UNSPECIFIED \<and>
   getStatementType ''/* a b */ SELECT 1'' = QUERY"
  by code_simp

section \<open>The end of a block comment in the splitter\<close>

text \<open>
  Claim C5 says that the splitter consumes both characters of a closing \<open>*/\<close>. The
  keyword scanner does (it adds one to the index); the splitter does not: in
  \<open>/*a*/* x;y\<close> the loop goes on at the \<open>/\<close> of the closing delimiter, reads \<open>/*\<close> as the
  start of a new comment, and the script is not split at its semicolon.
\<close>

theorem parse_block_comment_end_not_consumed:
  "getStatements_body ''/*a*/* x;y'' 3
     \<lparr>isInComment = True, commentChar = Some (CHR ''/''),
      isInString = False, stringChar = None, isInTripleQuotes = False\<rparr>
   = Continue 3 scanner_init \<and>
   getStatements_body ''/*a*/* x;y'' 4 scanner_init
   = Continue 4 \<lparr>isInComment = True, commentChar = Some (CHR ''/''),
      isInString = False, stringChar = None, isInTripleQuotes = False\<rparr> \<and>
   parse ''/*a*/* x;y'' = [''/*a*/* x;y''] \<and>
   getFirstKeywordOutsideComments_body ''/*a*/* x;y'' 3
     \<lparr>isInComment = True, commentChar = Some (CHR ''/''), keyword = []\<rparr>
   = Next 4 keyword_scanner_init"
  by code_simp

end
